theory Spec2Isabelle
  imports Main "HOL-Library.Word"
begin

unbundle bit_operations_syntax

section \<open>Bytes\<close>

text \<open>
  A Go \<open>[]byte\<close>, a Go \<open>string\<close> and a \<open>cryptobyte.String\<close> are all sequences of
  bytes; \<open>len\<close> counts bytes.
\<close>

type_synonym byte = "8 word"
type_synonym bytes = "byte list"

section \<open>The HTTPS record decoder (main.go)\<close>

record SvcParam =
  Key :: "16 word"
  Value :: bytes

record HttpsRecord =
  Priority :: "16 word"
  TargetName :: bytes
  Params :: "SvcParam list"

text \<open>The three \<open>fmt.Errorf\<close> values of \<open>parseHttpsRecord\<close>, in source order.\<close>

datatype httpsError =
  invalid_data_length
  | invalid_target_name_in_data
  | invalid_parameter_length

text \<open>
  \<open>for idx < len(data) && data[idx] != 0 { idx++ }\<close>: the scan for the terminating
  zero byte of the target name. The result is the final value of \<open>idx\<close>.
\<close>

function scanTargetName :: "bytes \<Rightarrow> nat \<Rightarrow> nat" where
  "scanTargetName data idx =
     (if idx < length data \<and> data ! idx \<noteq> 0 then scanTargetName data (idx + 1) else idx)"
  by pat_completeness auto
termination
  by (relation "measure (\<lambda>(data, idx). length data - idx)") auto

declare scanTargetName.simps [simp del]

text \<open>
  \<open>for idx+4 <= len(data) { ... }\<close>: the service parameter loop. \<open>key\<close> is a
  \<open>uint16\<close>, \<open>length\<close> an \<open>int\<close> built from two bytes (at most 65535, so Go's
  \<open>int\<close> never overflows and a natural number holds it). \<open>data[idx : idx+length]\<close>
  is in range because of the check before it.
\<close>

function parseSvcParams :: "bytes \<Rightarrow> nat \<Rightarrow> SvcParam list \<Rightarrow> httpsError + SvcParam list" where
  "parseSvcParams data idx params =
     (if idx + 4 \<le> length data then
        (let key = (push_bit 8 (ucast (data ! idx)) OR ucast (data ! (idx + 1)) :: 16 word);
             len = (push_bit 8 (unat (data ! (idx + 2))) OR unat (data ! (idx + 3)) :: nat);
             idx' = idx + 4
         in if idx' + len > length data then Inl invalid_parameter_length
            else parseSvcParams data (idx' + len)
                   (params @ [\<lparr>Key = key, Value = take len (drop idx' data)\<rparr>]))
      else Inr params)"
  by pat_completeness auto
termination
  by (relation "measure (\<lambda>(data, idx, params). length data - idx)") auto

declare parseSvcParams.simps [simp del]

definition parseHttpsRecord :: "bytes \<Rightarrow> httpsError + HttpsRecord" where
  "parseHttpsRecord data =
     (if length data < 3 then Inl invalid_data_length
      else
        (let priority = (push_bit 8 (ucast (data ! 0)) OR ucast (data ! 1) :: 16 word);
             idx = scanTargetName data 2
         in if idx \<ge> length data then Inl invalid_target_name_in_data
            else
              (let name = take (idx - 2) (drop 2 data);
                   idx = idx + 1
               in case parseSvcParams data idx [] of
                    Inl e \<Rightarrow> Inl e
                  | Inr params \<Rightarrow>
                      Inr \<lparr>Priority = priority, TargetName = name, Params = params\<rparr>)))"

section \<open>The byte-string reader used by ech.go\<close>

text \<open>
  Modelled from the spec: the reader primitives of \<open>golang.org/x/crypto/cryptobyte\<close>
  (\<open>String.ReadUint8\<close>, \<open>ReadUint16\<close>, \<open>ReadUint8LengthPrefixed\<close>,
  \<open>ReadUint16LengthPrefixed\<close>, \<open>Skip\<close>, \<open>Empty\<close>), which ech.go imports
  and which are not among the repository's sources. They are the bounds-checked
  \<open>readUint8/readUint16/readLengthPrefixed\<close> primitives of the design notes: a read
  either consumes exactly the bytes it needs from the front of the string and succeeds,
  or fails and leaves the string as it was; all integers are big-endian. A successful
  read returns the value together with the advanced string; \<open>None\<close> is the library's
  \<open>false\<close>.
\<close>

definition read :: "nat \<Rightarrow> bytes \<Rightarrow> (bytes \<times> bytes) option" where
  "read n s = (if length s < n then None else Some (take n s, drop n s))"

definition Skip :: "nat \<Rightarrow> bytes \<Rightarrow> bool \<times> bytes" where
  "Skip n s = (case read n s of None \<Rightarrow> (False, s) | Some (v, s') \<Rightarrow> (True, s'))"

definition ReadUint8 :: "bytes \<Rightarrow> (8 word \<times> bytes) option" where
  "ReadUint8 s = (case read 1 s of None \<Rightarrow> None | Some (v, s') \<Rightarrow> Some (v ! 0, s'))"

definition ReadUint16 :: "bytes \<Rightarrow> (16 word \<times> bytes) option" where
  "ReadUint16 s =
     (case read 2 s of
        None \<Rightarrow> None
      | Some (v, s') \<Rightarrow> Some (push_bit 8 (ucast (v ! 0)) OR ucast (v ! 1), s'))"

definition readLengthPrefixed :: "nat \<Rightarrow> bytes \<Rightarrow> (bytes \<times> bytes) option" where
  "readLengthPrefixed lenLen s =
     (case read lenLen s of
        None \<Rightarrow> None
      | Some (lenBytes, s') \<Rightarrow>
          (let len = foldl (\<lambda>l b. push_bit 8 l OR ucast b) (0 :: 32 word) lenBytes
           in read (unat len) s'))"

definition ReadUint8LengthPrefixed :: "bytes \<Rightarrow> (bytes \<times> bytes) option" where
  "ReadUint8LengthPrefixed s = readLengthPrefixed 1 s"

definition ReadUint16LengthPrefixed :: "bytes \<Rightarrow> (bytes \<times> bytes) option" where
  "ReadUint16LengthPrefixed s = readLengthPrefixed 2 s"

definition Empty :: "bytes \<Rightarrow> bool" where
  "Empty s = (length s = 0)"

section \<open>The ECHConfigList decoder (ech.go)\<close>

record echCipher =
  KDFID :: "16 word"
  AEADID :: "16 word"

record echExtension =
  Type :: "16 word"
  Data :: bytes

record echConfig =
  raw :: bytes
  Version :: "16 word"
  Length :: "16 word"
  ConfigID :: "8 word"
  KemID :: "16 word"
  PublicKey :: bytes
  SymmetricCipherSuite :: "echCipher list"
  MaxNameLength :: "8 word"
  PublicName :: bytes
  Extensions :: "echExtension list"

definition extensionEncryptedClientHello :: "16 word" where
  "extensionEncryptedClientHello = 0xfe0d"

text \<open>\<open>errMalformedECHConfig\<close>, the only error of the decoder.\<close>

datatype echError = errMalformedECHConfig

lemma read_length:
  "read n s = Some (v, s') \<Longrightarrow> length v = n \<and> length s = n + length s'"
  by (auto simp: read_def split: if_splits)

lemma ReadUint8_length:
  "ReadUint8 s = Some (v, s') \<Longrightarrow> length s = 1 + length s'"
  by (auto simp: ReadUint8_def split: option.splits dest: read_length)

lemma ReadUint16_length:
  "ReadUint16 s = Some (v, s') \<Longrightarrow> length s = 2 + length s'"
  by (auto simp: ReadUint16_def split: option.splits dest: read_length)

lemma readLengthPrefixed_length:
  "readLengthPrefixed n s = Some (v, s') \<Longrightarrow> length s = n + length v + length s'"
  by (auto simp: readLengthPrefixed_def Let_def split: option.splits dest!: read_length)

lemma ReadUint16LengthPrefixed_length:
  "ReadUint16LengthPrefixed s = Some (v, s') \<Longrightarrow> length s = 2 + length v + length s'"
  unfolding ReadUint16LengthPrefixed_def by (rule readLengthPrefixed_length)

lemma ReadUint8LengthPrefixed_length:
  "ReadUint8LengthPrefixed s = Some (v, s') \<Longrightarrow> length s = 1 + length v + length s'"
  unfolding ReadUint8LengthPrefixed_def by (drule readLengthPrefixed_length) simp

text \<open>
  \<open>for !cipherSuites.Empty() { ... }\<close> (lines 85 to 94): the loop over the cipher
  suite sub-string; the second argument is \<open>ec.SymmetricCipherSuite\<close>.
\<close>

function parseCipherSuites :: "bytes \<Rightarrow> echCipher list \<Rightarrow> echError + echCipher list" where
  "parseCipherSuites cipherSuites suites =
     (if \<not> Empty cipherSuites then
        (case ReadUint16 cipherSuites of
           None \<Rightarrow> Inl errMalformedECHConfig
         | Some (kdf, cs1) \<Rightarrow>
             (case ReadUint16 cs1 of
                None \<Rightarrow> Inl errMalformedECHConfig
              | Some (aead, cs2) \<Rightarrow>
                  parseCipherSuites cs2 (suites @ [\<lparr>KDFID = kdf, AEADID = aead\<rparr>])))
      else Inr suites)"
  by pat_completeness auto
termination
  by (relation "measure (\<lambda>(cs, suites). length cs)")
     (auto dest!: ReadUint16_length)

declare parseCipherSuites.simps [simp del]

text \<open>
  \<open>for !extensions.Empty() { ... }\<close> (lines 107 to 116): the loop over the extension
  sub-string; the second argument is \<open>ec.Extensions\<close>.
\<close>

function parseExtensions :: "bytes \<Rightarrow> echExtension list \<Rightarrow> echError + echExtension list" where
  "parseExtensions extensions exts =
     (if \<not> Empty extensions then
        (case ReadUint16 extensions of
           None \<Rightarrow> Inl errMalformedECHConfig
         | Some (ty, e1) \<Rightarrow>
             (case ReadUint16LengthPrefixed e1 of
                None \<Rightarrow> Inl errMalformedECHConfig
              | Some (d, e2) \<Rightarrow>
                  parseExtensions e2 (exts @ [\<lparr>Type = ty, Data = d\<rparr>])))
      else Inr exts)"
  by pat_completeness auto
termination
  by (relation "measure (\<lambda>(e, exts). length e)")
     (auto dest!: ReadUint16_length ReadUint16LengthPrefixed_length)

declare parseExtensions.simps [simp del]

text \<open>
  One pass through the body of \<open>for len(s) > 0 { ... }\<close> (lines 56 to 118), started
  with the string \<open>s\<close>. The result is the error, or the string after the pass together
  with the config to append: \<open>None\<close> when the pass ended in \<open>continue\<close> (an entry of
  another version). Every read is on \<open>s\<close> itself, the rest of the whole list.
  \<open>ec.Length+4\<close> in the slice expression is \<open>uint16\<close> arithmetic and wraps;
  \<open>int(ec.Length)+4\<close> in the comparison does not. The result of \<open>s.Skip\<close> is
  dropped by the source.
\<close>

definition parseECHConfigEntry :: "bytes \<Rightarrow> echError + (echConfig option \<times> bytes)" where
  "parseECHConfigEntry s0 =
     (case ReadUint16 s0 of
        None \<Rightarrow> Inl errMalformedECHConfig
      | Some (version, s1) \<Rightarrow>
     (case ReadUint16 s1 of
        None \<Rightarrow> Inl errMalformedECHConfig
      | Some (len, s2) \<Rightarrow>
     if int (length s0) < uint len + 4 then Inl errMalformedECHConfig
     else
       (let raw' = take (unat (len + 4)) s0 in
        if version \<noteq> extensionEncryptedClientHello
        then Inr (None, snd (Skip (unat len) s2))
        else
     (case ReadUint8 s2 of
        None \<Rightarrow> Inl errMalformedECHConfig
      | Some (configID, s3) \<Rightarrow>
     (case ReadUint16 s3 of
        None \<Rightarrow> Inl errMalformedECHConfig
      | Some (kemID, s4) \<Rightarrow>
     (case ReadUint16LengthPrefixed s4 of
        None \<Rightarrow> Inl errMalformedECHConfig
      | Some (publicKey, s5) \<Rightarrow>
     (case ReadUint16LengthPrefixed s5 of
        None \<Rightarrow> Inl errMalformedECHConfig
      | Some (cipherSuites, s6) \<Rightarrow>
     (case parseCipherSuites cipherSuites [] of
        Inl e \<Rightarrow> Inl e
      | Inr suites \<Rightarrow>
     (case ReadUint8 s6 of
        None \<Rightarrow> Inl errMalformedECHConfig
      | Some (maxNameLength, s7) \<Rightarrow>
     (case ReadUint8LengthPrefixed s7 of
        None \<Rightarrow> Inl errMalformedECHConfig
      | Some (publicName, s8) \<Rightarrow>
     (case ReadUint16LengthPrefixed s8 of
        None \<Rightarrow> Inl errMalformedECHConfig
      | Some (extensions, s9) \<Rightarrow>
     (case parseExtensions extensions [] of
        Inl e \<Rightarrow> Inl e
      | Inr exts \<Rightarrow>
          Inr (Some \<lparr>raw = raw', Version = version, Length = len,
                     ConfigID = configID, KemID = kemID, PublicKey = publicKey,
                     SymmetricCipherSuite = suites, MaxNameLength = maxNameLength,
                     PublicName = publicName, Extensions = exts\<rparr>,
               s9)))))))))))))"

lemma Skip_length: "length (snd (Skip n s)) \<le> length s"
  by (auto simp: Skip_def read_def)

lemma parseECHConfigEntry_length:
  assumes "parseECHConfigEntry s = Inr (r, s')"
  shows "length s' + 4 \<le> length s"
proof -
  from assms obtain version s1 len s2
    where r1: "ReadUint16 s = Some (version, s1)"
      and r2: "ReadUint16 s1 = Some (len, s2)"
    by (auto simp: parseECHConfigEntry_def split: option.splits)
  have l2: "length s = 4 + length s2"
    using ReadUint16_length [OF r1] ReadUint16_length [OF r2] by simp
  show ?thesis
  proof (cases "version \<noteq> extensionEncryptedClientHello")
    case True
    with assms r1 r2 have "s' = snd (Skip (unat len) s2)"
      by (auto simp: parseECHConfigEntry_def Let_def split: if_splits)
    with l2 Skip_length [of "unat len" s2] show ?thesis by simp
  next
    case False
    with assms r1 r2 obtain a s3 b s4 c s5 d s6 e s7 f s8 g
      where "ReadUint8 s2 = Some (a, s3)" "ReadUint16 s3 = Some (b, s4)"
        "ReadUint16LengthPrefixed s4 = Some (c, s5)"
        "ReadUint16LengthPrefixed s5 = Some (d, s6)"
        "ReadUint8 s6 = Some (e, s7)"
        "ReadUint8LengthPrefixed s7 = Some (f, s8)"
        "ReadUint16LengthPrefixed s8 = Some (g, s')"
      by (auto simp: parseECHConfigEntry_def Let_def split: if_splits option.splits sum.splits)
    then show ?thesis
      using l2
      by (auto dest!: ReadUint8_length ReadUint16_length ReadUint16LengthPrefixed_length
          ReadUint8LengthPrefixed_length)
  qed
qed

text \<open>
  \<open>for len(s) > 0 { ... }\<close> (lines 55 to 119) with \<open>return configs, nil\<close> after it;
  the second argument is \<open>configs\<close>.
\<close>

function parseECHConfigs :: "bytes \<Rightarrow> echConfig list \<Rightarrow> echError + echConfig list" where
  "parseECHConfigs s configs =
     (if length s > 0 then
        (case parseECHConfigEntry s of
           Inl e \<Rightarrow> Inl e
         | Inr (None, s') \<Rightarrow> parseECHConfigs s' configs
         | Inr (Some ec, s') \<Rightarrow> parseECHConfigs s' (configs @ [ec]))
      else Inr configs)"
  by pat_completeness auto
termination
  by (relation "measure (\<lambda>(s, configs). length s)")
     (auto dest!: parseECHConfigEntry_length)

declare parseECHConfigs.simps [simp del]

text \<open>
  \<open>parseECHConfigList\<close> (lines 44 to 121). \<open>uint16(len(data)-2)\<close> converts an
  \<open>int\<close> to 16 bits and keeps the low 16 bits.
\<close>

definition parseECHConfigList :: "bytes \<Rightarrow> echError + echConfig list" where
  "parseECHConfigList data =
     (case ReadUint16 data of
        None \<Rightarrow> Inl errMalformedECHConfig
      | Some (len, s) \<Rightarrow>
          if len \<noteq> word_of_int (int (length data) - 2) then Inl errMalformedECHConfig
          else parseECHConfigs s [])"

section \<open>The outer extension encoder (ech.go)\<close>

text \<open>
  Modelled from the spec: the writer of \<open>golang.org/x/crypto/cryptobyte\<close>
  (\<open>Builder\<close> with \<open>AddUint8\<close>, \<open>AddUint16\<close>, \<open>AddBytes\<close>,
  \<open>AddUint16LengthPrefixed\<close>, \<open>Bytes\<close>), which ech.go imports and which is not
  among the repository's sources. It appends big-endian integers and bytes to
  \<open>result\<close>; a length-prefixed child is written after a placeholder of \<open>lenLen\<close>
  zero bytes, which is then overwritten with the child's length, and a length that
  does not fit the prefix is the size-contract violation of the error handling
  design: it sets \<open>err\<close>, after which every write is ignored and \<open>Bytes\<close> returns
  the error rather than a byte sequence.
\<close>

datatype builderError = pending_child_length_exceeds_prefix nat nat

record Builder =
  err :: "builderError option"
  result :: bytes
  offset :: nat
  pendingLenLen :: nat

definition newBuilder :: Builder where
  "newBuilder = \<lparr>err = None, result = [], offset = 0, pendingLenLen = 0\<rparr>"

definition add :: "bytes \<Rightarrow> Builder \<Rightarrow> Builder" where
  "add bs b = (if err b \<noteq> None then b else b\<lparr>result := result b @ bs\<rparr>)"

definition AddUint8 :: "8 word \<Rightarrow> Builder \<Rightarrow> Builder" where
  "AddUint8 v b = add [v] b"

definition AddUint16 :: "16 word \<Rightarrow> Builder \<Rightarrow> Builder" where
  "AddUint16 v b = add [ucast (drop_bit 8 v), ucast v] b"

definition AddBytes :: "bytes \<Rightarrow> Builder \<Rightarrow> Builder" where
  "AddBytes v b = add v b"

text \<open>
  The loop of \<open>flushChild\<close> that stores the child's length into the placeholder,
  lowest byte last: \<open>for i := lenLen - 1; i >= 0; i-- { result[offset+i] = uint8(l);
  l >>= 8 }\<close>. The second argument counts the bytes still to write; the result is the
  buffer and what is left of \<open>l\<close>.
\<close>

fun writeLength :: "nat \<Rightarrow> nat \<Rightarrow> nat \<Rightarrow> bytes \<Rightarrow> bytes \<times> nat" where
  "writeLength off 0 l res = (res, l)"
| "writeLength off (Suc i) l res =
     writeLength off i (drop_bit 8 l) (res[off + i := word_of_nat l])"

definition flushChild :: "Builder \<Rightarrow> Builder \<Rightarrow> Builder" where
  "flushChild b child =
     (if err child \<noteq> None then b\<lparr>err := err child\<rparr>
      else
        (let len = length (result child) - pendingLenLen child - offset child;
             (res, l) = writeLength (offset child) (pendingLenLen child) len (result child)
         in if l \<noteq> 0
            then b\<lparr>err := Some (pending_child_length_exceeds_prefix len (pendingLenLen child))\<rparr>
            else b\<lparr>result := res\<rparr>))"

definition addLengthPrefixed :: "nat \<Rightarrow> (Builder \<Rightarrow> Builder) \<Rightarrow> Builder \<Rightarrow> Builder" where
  "addLengthPrefixed lenLen f b =
     (if err b \<noteq> None then b
      else
        (let off = length (result b);
             b' = add (replicate lenLen 0) b;
             child = f \<lparr>err = None, result = result b', offset = off, pendingLenLen = lenLen\<rparr>
         in flushChild b' child))"

definition AddUint16LengthPrefixed :: "(Builder \<Rightarrow> Builder) \<Rightarrow> Builder \<Rightarrow> Builder" where
  "AddUint16LengthPrefixed f b = addLengthPrefixed 2 f b"

definition Bytes :: "Builder \<Rightarrow> builderError + bytes" where
  "Bytes b = (case err b of Some e \<Rightarrow> Inl e | None \<Rightarrow> Inr (drop (offset b) (result b)))"

text \<open>\<open>generateOuterECHExt\<close> (lines 123 to 132); the builder is passed along.\<close>

definition generateOuterECHExt ::
  "8 word \<Rightarrow> 16 word \<Rightarrow> 16 word \<Rightarrow> bytes \<Rightarrow> bytes \<Rightarrow> builderError + bytes" where
  "generateOuterECHExt id' kdfID aeadID encodedKey payload =
     (let b = newBuilder;
          b = AddUint8 0 b;
          b = AddUint16 kdfID b;
          b = AddUint16 aeadID b;
          b = AddUint8 id' b;
          b = AddUint16LengthPrefixed (AddBytes encodedKey) b;
          b = AddUint16LengthPrefixed (AddBytes payload) b
      in Bytes b)"

section \<open>The domain name check (ech.go)\<close>

text \<open>
  A Go string is a byte sequence and \<open>len\<close> counts bytes, as \<open>length\<close> does on a
  \<open>string\<close> here. \<open>strings.Split(name, ".")\<close> cuts at every separator and keeps
  empty pieces, so the result is never empty.
\<close>

fun strings_Split :: "string \<Rightarrow> char \<Rightarrow> string list" where
  "strings_Split [] sep = [[]]"
| "strings_Split (c # cs) sep =
     (if c = sep then [] # strings_Split cs sep
      else (c # hd (strings_Split cs sep)) # tl (strings_Split cs sep))"

text \<open>The code point of a rune, for the range comparisons.\<close>

definition rune :: "char \<Rightarrow> nat" where
  "rune r = of_char r"

text \<open>
  \<open>for i, r := range l { ... }\<close> (lines 151 to 158), run on the bytes of the label
  from index \<open>i\<close> on; \<open>True\<close> when the loop ends without \<open>return false\<close>. Go decodes
  UTF-8 here, which changes nothing: a byte below 128 is a rune of its own at its byte
  index, and at the first byte from 128 up the decoded rune is 128 or more (or the
  replacement rune 0xFFFD) and fails the second test, as the byte itself does.
\<close>

fun labelRunes :: "string \<Rightarrow> nat \<Rightarrow> nat \<Rightarrow> bool" where
  "labelRunes [] labelLen i = True"
| "labelRunes (r # rs) labelLen i =
     (if r = CHR ''-'' \<and> (i = 0 \<or> i = labelLen - 1) then False
      else if (rune r < rune CHR ''0'' \<or> rune r > rune CHR ''9'')
            \<and> (rune r < rune CHR ''a'' \<or> rune r > rune CHR ''z'')
            \<and> (rune r < rune CHR ''A'' \<or> rune r > rune CHR ''Z'')
            \<and> r \<noteq> CHR ''-'' then False
      else labelRunes rs labelLen (i + 1))"

text \<open>\<open>for _, l := range labels { ... }\<close> (lines 146 to 159).\<close>

fun labelsLoop :: "string list \<Rightarrow> bool" where
  "labelsLoop [] = True"
| "labelsLoop (l # ls) =
     (let labelLen = length l
      in if labelLen = 0 then False
         else if \<not> labelRunes l labelLen 0 then False
         else labelsLoop ls)"

definition validDNSName :: "string \<Rightarrow> bool" where
  "validDNSName name =
     (if length name > 253 then False
      else
        (let labels = strings_Split name CHR ''.''
         in if length labels \<le> 1 then False else labelsLoop labels))"

section \<open>Wire layouts\<close>

text \<open>
  The byte layouts the properties below quantify over: how a well-formed input is put
  together from the values it carries. They build inputs for the decoders and name
  the expected output of the encoder; none of them is part of the program.
\<close>

text \<open>A 16-bit integer, high byte first.\<close>

definition u16be :: "16 word \<Rightarrow> bytes" where
  "u16be v = [ucast (drop_bit 8 v), ucast v]"

text \<open>A field behind its length, the length in two bytes or in one.\<close>

definition lp16 :: "bytes \<Rightarrow> bytes" where
  "lp16 v = u16be (word_of_nat (length v)) @ v"

definition lp8 :: "bytes \<Rightarrow> bytes" where
  "lp8 v = word_of_nat (length v) # v"

text \<open>A service parameter: key, then the value behind its length.\<close>

definition svcParamWire :: "SvcParam \<Rightarrow> bytes" where
  "svcParamWire p = u16be (Key p) @ lp16 (Value p)"

text \<open>
  An HTTPS record as the decoder reads it: priority, the target name closed by a zero
  byte, the parameters.
\<close>

definition httpsRecordWire :: "HttpsRecord \<Rightarrow> bytes" where
  "httpsRecordWire r =
     u16be (Priority r) @ TargetName r @ [0] @ concat (map svcParamWire (Params r))"

text \<open>An entry of an ECHConfigList: version, then the body behind its length.\<close>

definition entryWire :: "16 word \<Rightarrow> bytes \<Rightarrow> bytes" where
  "entryWire version body = u16be version @ lp16 body"

text \<open>A run of entries, each given by its version and its body.\<close>

definition entriesWire :: "(16 word \<times> bytes) list \<Rightarrow> bytes" where
  "entriesWire es = concat (map (\<lambda>(v, b). entryWire v b) es)"

text \<open>An ECHConfigList: the entries behind their total length.\<close>

definition listWire :: "bytes \<Rightarrow> bytes" where
  "listWire entries = lp16 entries"

text \<open>The fields of an entry of the recognized version, in the order of the format.\<close>

definition cipherWire :: "echCipher \<Rightarrow> bytes" where
  "cipherWire c = u16be (KDFID c) @ u16be (AEADID c)"

definition extensionWire :: "echExtension \<Rightarrow> bytes" where
  "extensionWire e = u16be (Type e) @ lp16 (Data e)"

definition echConfigContents :: "echConfig \<Rightarrow> bytes" where
  "echConfigContents c =
     ConfigID c # u16be (KemID c) @ lp16 (PublicKey c)
     @ lp16 (concat (map cipherWire (SymmetricCipherSuite c)))
     @ MaxNameLength c # lp8 (PublicName c)
     @ lp16 (concat (map extensionWire (Extensions c)))"

definition echConfigWire :: "echConfig \<Rightarrow> bytes" where
  "echConfigWire c = entryWire extensionEncryptedClientHello (echConfigContents c)"

text \<open>
  A config that an entry of the recognized version can carry: \<open>raw\<close>, \<open>Version\<close> and
  \<open>Length\<close> are those of its own entry, and every length fits its prefix (the entry
  as a whole fits a list, whose length prefix has 16 bits).
\<close>

definition wellFormedConfig :: "echConfig \<Rightarrow> bool" where
  "wellFormedConfig c \<longleftrightarrow>
     raw c = echConfigWire c
     \<and> Version c = extensionEncryptedClientHello
     \<and> unat (Length c) = length (echConfigContents c)
     \<and> length (echConfigWire c) \<le> 65535
     \<and> length (PublicName c) \<le> 255
     \<and> (\<forall>e\<in>set (Extensions c). length (Data e) \<le> 65535)"

text \<open>The ASCII letters and digits.\<close>

definition asciiAlphanumeric :: "char \<Rightarrow> bool" where
  "asciiAlphanumeric c =
     (c \<in> set ''abcdefghijklmnopqrstuvwxyzABCDEFGHIJKLMNOPQRSTUVWXYZ0123456789'')"

section \<open>Big-endian bytes\<close>

lemma be16_join:
  "push_bit 8 (ucast (ucast (drop_bit 8 k) :: 8 word)) OR ucast (ucast k :: 8 word) = (k :: 16 word)"
  by (rule bit_word_eqI) (auto simp: bit_simps)

lemma unat_u16_bytes:
  "push_bit 8 (unat (ucast (drop_bit 8 k) :: 8 word)) OR unat (ucast k :: 8 word)
     = unat (k :: 16 word)"
  by (rule bit_eqI) (auto simp: bit_simps dest: bit_imp_le_length)

lemma unat32_u16_bytes:
  "unat (push_bit 8 (ucast (ucast (drop_bit 8 k) :: 8 word)) OR ucast (ucast k :: 8 word) :: 32 word)
     = unat (k :: 16 word)"
  by (rule bit_eqI) (auto simp: bit_simps dest: bit_imp_le_length)

lemma u16be_join: "u16be (push_bit 8 (ucast (a :: 8 word)) OR ucast (b :: 8 word)) = [a, b]"
  unfolding u16be_def
  by (simp, intro conjI; rule bit_word_eqI) (auto simp: bit_simps dest: bit_imp_le_length)

lemma u16be_nat_join:
  "u16be (word_of_nat (push_bit 8 (unat (a :: 8 word)) OR unat (b :: 8 word))) = [a, b]"
proof -
  have "(word_of_nat (push_bit 8 (unat a) OR unat b) :: 16 word)
          = push_bit 8 (ucast a) OR ucast b"
    by (rule bit_word_eqI) (auto simp: bit_simps dest: bit_imp_le_length)
  then show ?thesis by (simp add: u16be_join)
qed

lemma nat_join_bound: "push_bit 8 (unat (a :: 8 word)) OR unat (b :: 8 word) \<le> 65535"
proof -
  have "push_bit 8 (unat a) OR unat b = unat (push_bit 8 (ucast a) OR ucast b :: 16 word)"
    by (rule bit_eqI) (auto simp: bit_simps dest: bit_imp_le_length)
  also have "\<dots> < 2 ^ 16"
    using unsigned_less [of "push_bit 8 (ucast a) OR ucast b :: 16 word"] by simp
  finally show ?thesis by simp
qed

lemma u16be_of_nat:
  "u16be (word_of_nat n) = [word_of_nat (drop_bit 8 n), word_of_nat n]"
  unfolding u16be_def
  by (simp, intro conjI; rule bit_word_eqI) (auto simp: bit_simps dest: bit_imp_le_length)

lemma u16_eq_of_nat_iff: "(n :: 16 word) = word_of_nat m \<longleftrightarrow> m mod 65536 = unat n"
proof -
  have "n = word_of_nat m \<longleftrightarrow> unat n = unat (word_of_nat m :: 16 word)"
    by (simp add: word_unat_eq_iff)
  then show ?thesis by (auto simp: unat_of_nat)
qed

lemma length_u16be [simp]: "length (u16be v) = 2"
  by (simp add: u16be_def)

lemma length_lp16: "length (lp16 v) = 2 + length v"
  by (simp add: lp16_def)

section \<open>Properties of the HTTPS record decoder\<close>

lemma scanTargetName_at_zero:
  "scanTargetName [0, 2, 0, 0] 2 = 2"
  by (subst scanTargetName.simps) simp

lemma parseSvcParams_no_room:
  "parseSvcParams [0, 2, 0, 0] 3 [] = Inr []"
  by (subst parseSvcParams.simps) simp

text \<open>
  C2, as the specification states it: decoding the four bytes \<open>00 02 00 00\<close> gives
  priority 0, an empty target name and no parameters. The decoder does not return
  that record: the first two bytes are the big-endian priority, which is 2.
\<close>

theorem C2_priority_zero_counterexample:
  "parseHttpsRecord [0, 2, 0, 0] \<noteq> Inr \<lparr>Priority = 0, TargetName = [], Params = []\<rparr>"
  by (simp add: parseHttpsRecord_def scanTargetName_at_zero parseSvcParams_no_room)

text \<open>
  C2, amended: decoding the four bytes \<open>00 02 00 00\<close> succeeds and returns priority
  2, the empty target name and an empty parameter sequence.
\<close>

theorem C2_decode_00_02_00_00:
  "parseHttpsRecord [0, 2, 0, 0] = Inr \<lparr>Priority = 2, TargetName = [], Params = []\<rparr>"
  by (simp add: parseHttpsRecord_def scanTargetName_at_zero parseSvcParams_no_room)

subsection \<open>Decoding a record laid out on the wire\<close>

lemma SvcParam_eta: "\<lparr>Key = Key p, Value = Value p\<rparr> = (p :: SvcParam)"
  by (cases p) simp

lemma length_svcParamWire: "length (svcParamWire p) = 4 + length (Value p)"
  by (simp add: svcParamWire_def lp16_def)

text \<open>One pass of the parameter loop over a parameter that is laid out at \<open>idx\<close>.\<close>

lemma parseSvcParams_step:
  fixes p :: SvcParam
  assumes "length (Value p) \<le> 65535"
  shows "parseSvcParams (pre @ svcParamWire p @ rest) (length pre) acc
       = parseSvcParams (pre @ svcParamWire p @ rest)
           (length pre + 4 + length (Value p)) (acc @ [p])"
  apply (subst parseSvcParams.simps)
  using assms
  by (simp add: svcParamWire_def lp16_def u16be_def nth_append Let_def be16_join
      unat_u16_bytes unat_of_nat SvcParam_eta)

text \<open>With fewer than four bytes left the loop ends, whatever the bytes are.\<close>

lemma parseSvcParams_end:
  "length t \<le> 3 \<Longrightarrow> parseSvcParams (pre @ t) (length pre) acc = Inr acc"
  by (subst parseSvcParams.simps) simp

lemma parseSvcParams_wire:
  fixes ps :: "SvcParam list"
  assumes "\<forall>p\<in>set ps. length (Value p) \<le> 65535" and "length t \<le> 3"
  shows "parseSvcParams (pre @ concat (map svcParamWire ps) @ t) (length pre) acc
       = Inr (acc @ ps)"
  using assms(1)
proof (induction ps arbitrary: pre acc)
  case Nil
  show ?case using parseSvcParams_end [OF assms(2)] by simp
next
  case (Cons p ps)
  from Cons.prems have p: "length (Value p) \<le> 65535"
    and ps: "\<forall>p\<in>set ps. length (Value p) \<le> 65535" by auto
  let ?rest = "concat (map svcParamWire ps) @ t"
  have "parseSvcParams (pre @ concat (map svcParamWire (p # ps)) @ t) (length pre) acc
      = parseSvcParams (pre @ svcParamWire p @ ?rest) (length pre) acc"
    by simp
  also have "\<dots> = parseSvcParams (pre @ svcParamWire p @ ?rest)
                     (length pre + 4 + length (Value p)) (acc @ [p])"
    by (rule parseSvcParams_step [OF p])
  also have "\<dots> = parseSvcParams ((pre @ svcParamWire p) @ ?rest)
                     (length (pre @ svcParamWire p)) (acc @ [p])"
    by (simp add: length_svcParamWire add.assoc)
  also have "\<dots> = Inr ((acc @ [p]) @ ps)"
    by (rule Cons.IH [OF ps])
  finally show ?case by simp
qed

lemma scanTargetName_wire:
  "0 \<notin> set name \<Longrightarrow>
   scanTargetName (pre @ name @ 0 # rest) (length pre) = length pre + length name"
proof (induction name arbitrary: pre)
  case Nil
  show ?case by (subst scanTargetName.simps) simp
next
  case (Cons c name)
  from Cons.prems have c: "c \<noteq> 0" and n: "0 \<notin> set name" by auto
  have "scanTargetName (pre @ (c # name) @ 0 # rest) (length pre)
        = scanTargetName ((pre @ [c]) @ name @ 0 # rest) (length (pre @ [c]))"
    by (subst scanTargetName.simps) (simp add: c nth_append)
  also have "\<dots> = length (pre @ [c]) + length name"
    by (rule Cons.IH [OF n])
  finally show ?case by simp
qed

text \<open>
  A record whose target name holds no zero byte and whose values fit their 16-bit
  length decodes to itself, with up to three more bytes after it or without.
\<close>

lemma parseHttpsRecord_wire:
  fixes r :: HttpsRecord
  assumes "0 \<notin> set (TargetName r)"
    and "\<forall>p\<in>set (Params r). length (Value p) \<le> 65535"
    and "length t \<le> 3"
  shows "parseHttpsRecord (httpsRecordWire r @ t) = Inr r"
proof -
  let ?ps = "concat (map svcParamWire (Params r))"
  let ?pre = "u16be (Priority r) @ TargetName r @ [0]"
  have data: "httpsRecordWire r @ t = ?pre @ ?ps @ t"
    by (simp add: httpsRecordWire_def)
  have scan: "scanTargetName (?pre @ ?ps @ t) 2 = 2 + length (TargetName r)"
    using scanTargetName_wire [OF assms(1), of "u16be (Priority r)" "?ps @ t"]
    by (simp add: u16be_def numeral_2_eq_2)
  have params:
    "parseSvcParams (?pre @ ?ps @ t) (Suc (2 + length (TargetName r))) [] = Inr (Params r)"
    using parseSvcParams_wire [OF assms(2,3), of ?pre "[]"]
    by (simp add: u16be_def)
  have prio:
    "push_bit 8 (ucast ((?pre @ ?ps @ t) ! 0)) OR ucast ((?pre @ ?ps @ t) ! 1) = Priority r"
    by (simp add: u16be_def be16_join)
  have name: "take (length (TargetName r)) (drop 2 (?pre @ ?ps @ t)) = TargetName r"
    by (simp add: u16be_def)
  show ?thesis
    unfolding data parseHttpsRecord_def Let_def scan
    using params prio name
    by (simp add: u16be_def)
qed

subsection \<open>What an accepted input looks like\<close>

lemma scanTargetName_props:
  "idx \<le> length data \<Longrightarrow>
     idx \<le> scanTargetName data idx \<and> scanTargetName data idx \<le> length data
     \<and> (\<forall>i. idx \<le> i \<and> i < scanTargetName data idx \<longrightarrow> data ! i \<noteq> 0)
     \<and> (scanTargetName data idx < length data \<longrightarrow> data ! (scanTargetName data idx) = 0)"
proof (induction data idx rule: scanTargetName.induct)
  case (1 data idx)
  show ?case
  proof (cases "idx < length data \<and> data ! idx \<noteq> 0")
    case True
    then have eq: "scanTargetName data idx = scanTargetName data (idx + 1)"
      by (subst scanTargetName.simps) simp
    from True have "idx + 1 \<le> length data" by simp
    have "i = idx \<or> Suc idx \<le> i" if "idx \<le> i" for i
      using that by auto
    with "1.IH" [OF True \<open>idx + 1 \<le> length data\<close>] True show ?thesis
      unfolding eq by (metis Suc_eq_plus1 Suc_leD)
  next
    case False
    then have eq: "scanTargetName data idx = idx"
      by (subst scanTargetName.simps) auto
    from False "1.prems" show ?thesis unfolding eq by auto
  qed
qed

lemma drop_four:
  assumes "idx + 4 \<le> length data"
  shows "drop idx data =
           data ! idx # data ! (idx + 1) # data ! (idx + 2) # data ! (idx + 3)
           # drop (idx + 4) data"
proof -
  have "drop idx data = data ! idx # drop (Suc idx) data"
    using assms by (simp add: Cons_nth_drop_Suc)
  also have "drop (Suc idx) data = data ! (Suc idx) # drop (Suc (Suc idx)) data"
    using assms by (simp add: Cons_nth_drop_Suc)
  also have "drop (Suc (Suc idx)) data
               = data ! (Suc (Suc idx)) # drop (Suc (Suc (Suc idx))) data"
    using assms by (simp add: Cons_nth_drop_Suc)
  also have "drop (Suc (Suc (Suc idx))) data
               = data ! (Suc (Suc (Suc idx))) # drop (Suc (Suc (Suc (Suc idx)))) data"
    using assms by (simp add: Cons_nth_drop_Suc)
  finally show ?thesis by (simp add: eval_nat_numeral)
qed

text \<open>
  When the parameter loop returns, the bytes from \<open>idx\<close> on are the parameters it
  appended, laid out one after the other, and at most three bytes that belong to none.
\<close>

lemma parseSvcParams_complete:
  "parseSvcParams data idx acc = Inr ps \<Longrightarrow> idx \<le> length data \<Longrightarrow>
   \<exists>ps' t. ps = acc @ ps' \<and> drop idx data = concat (map svcParamWire ps') @ t
       \<and> length t \<le> 3 \<and> (\<forall>p\<in>set ps'. length (Value p) \<le> 65535)"
proof (induction data idx acc rule: parseSvcParams.induct)
  case (1 data idx params)
  show ?case
  proof (cases "idx + 4 \<le> length data")
    case False
    with "1.prems" have "ps = params"
      by (subst (asm) parseSvcParams.simps) simp
    moreover from False "1.prems" have "length (drop idx data) \<le> 3" by simp
    ultimately show ?thesis
      by (intro exI [of _ "[]"] exI [of _ "drop idx data"]) simp
  next
    case True
    define key :: "16 word"
      where "key = push_bit 8 (ucast (data ! idx)) OR ucast (data ! (idx + 1))"
    define len :: nat
      where "len = push_bit 8 (unat (data ! (idx + 2))) OR unat (data ! (idx + 3))"
    define p where "p = \<lparr>Key = key, Value = take len (drop (idx + 4) data)\<rparr>"
    from True "1.prems"(1) have fit: "\<not> idx + 4 + len > length data"
      and rec: "parseSvcParams data (idx + 4 + len) (params @ [p]) = Inr ps"
      by (subst (asm) parseSvcParams.simps,
          simp add: Let_def key_def len_def p_def split: if_splits)+
    from fit have le: "idx + 4 + len \<le> length data" by simp
    from "1.IH" [OF True key_def len_def refl fit, folded p_def, OF rec le]
    obtain ps' t where ps': "ps = (params @ [p]) @ ps'"
      and d: "drop (idx + 4 + len) data = concat (map svcParamWire ps') @ t"
      and t: "length t \<le> 3" and b: "\<forall>p\<in>set ps'. length (Value p) \<le> 65535"
      by blast
    have lv: "length (Value p) = len" using le by (simp add: p_def)
    have w: "svcParamWire p =
               data ! idx # data ! (idx + 1) # data ! (idx + 2) # data ! (idx + 3)
               # take len (drop (idx + 4) data)"
      unfolding svcParamWire_def lp16_def lv
      by (simp add: p_def key_def len_def u16be_join u16be_nat_join)
    have "drop len (drop (idx + 4) data) = drop (idx + 4 + len) data"
      by (simp add: add.commute)
    then have "drop (idx + 4) data
                 = take len (drop (idx + 4) data) @ drop (idx + 4 + len) data"
      using append_take_drop_id [of len "drop (idx + 4) data"] by metis
    then have "drop idx data = svcParamWire p @ drop (idx + 4 + len) data"
      unfolding w drop_four [OF True] by simp
    with d have "drop idx data = concat (map svcParamWire (p # ps')) @ t" by simp
    moreover have "length (Value p) \<le> 65535"
      unfolding lv len_def by (rule nat_join_bound)
    ultimately show ?thesis using ps' t b
      by (intro exI [of _ "p # ps'"] exI [of _ t]) simp
  qed
qed

lemma parseHttpsRecord_complete:
  assumes "parseHttpsRecord data = Inr r"
  shows "\<exists>t. data = httpsRecordWire r @ t \<and> length t \<le> 3 \<and> 0 \<notin> set (TargetName r)
           \<and> (\<forall>p\<in>set (Params r). length (Value p) \<le> 65535)"
proof -
  define j where "j = scanTargetName data 2"
  from assms have len: "3 \<le> length data" and j: "j < length data"
    by (auto simp: parseHttpsRecord_def Let_def j_def split: if_splits)
  from assms len j obtain ps where ps: "parseSvcParams data (j + 1) [] = Inr ps"
    and r: "r = \<lparr>Priority = push_bit 8 (ucast (data ! 0)) OR ucast (data ! 1),
                   TargetName = take (j - 2) (drop 2 data), Params = ps\<rparr>"
    by (auto simp: parseHttpsRecord_def Let_def j_def split: if_splits sum.splits)
  from len have "2 \<le> length data" by simp
  from scanTargetName_props [OF this, folded j_def] j
  have j2: "2 \<le> j" and nz: "\<forall>i. 2 \<le> i \<and> i < j \<longrightarrow> data ! i \<noteq> 0" and z: "data ! j = 0"
    by auto
  from j have "j + 1 \<le> length data" by simp
  from parseSvcParams_complete [OF ps this] obtain t
    where d: "drop (j + 1) data = concat (map svcParamWire ps) @ t"
      and t: "length t \<le> 3" and b: "\<forall>p\<in>set ps. length (Value p) \<le> 65535"
    by auto
  have "data = take 2 data @ take (j - 2) (drop 2 data) @ drop j data"
    using j2 by (metis append_take_drop_id drop_drop le_add_diff_inverse2)
  moreover have "take 2 data = [data ! 0, data ! 1]"
    using len by (cases data, simp, rename_tac a as, case_tac as, auto)
  moreover have "drop j data = 0 # drop (j + 1) data"
    using j z by (metis Cons_nth_drop_Suc Suc_eq_plus1)
  ultimately have "data = [data ! 0, data ! 1] @ take (j - 2) (drop 2 data) @ [0]
                     @ concat (map svcParamWire ps) @ t"
    using d by simp
  then have "data = httpsRecordWire r @ t"
    by (simp add: httpsRecordWire_def r u16be_join)
  moreover have "0 \<notin> set (TargetName r)"
  proof
    assume "0 \<in> set (TargetName r)"
    then obtain i where i: "i < length (take (j - 2) (drop 2 data))"
      and "take (j - 2) (drop 2 data) ! i = 0"
      unfolding r by (auto simp: in_set_conv_nth)
    then have "data ! (2 + i) = 0" using j by simp
    moreover from i j have "2 + i < j" by simp
    ultimately show False using nz by auto
  qed
  ultimately show ?thesis using t b by (auto simp: r)
qed

section \<open>Reading laid-out fields\<close>

lemma ReadUint16_Cons2:
  "ReadUint16 (a # b # rest) = Some (push_bit 8 (ucast a) OR ucast b, rest)"
  by (simp add: ReadUint16_def read_def)

lemma ReadUint16_short: "length s < 2 \<Longrightarrow> ReadUint16 s = None"
  by (simp add: ReadUint16_def read_def)

lemma ReadUint16_u16be: "ReadUint16 (u16be v @ rest) = Some (v, rest)"
  by (simp add: u16be_def ReadUint16_Cons2 be16_join)

lemma ReadUint8_Cons: "ReadUint8 (a # rest) = Some (a, rest)"
  by (simp add: ReadUint8_def read_def)

lemma ReadUint16LengthPrefixed_lp16:
  "length v \<le> 65535 \<Longrightarrow> ReadUint16LengthPrefixed (lp16 v @ rest) = Some (v, rest)"
  by (simp add: ReadUint16LengthPrefixed_def readLengthPrefixed_def lp16_def u16be_def
      read_def unat32_u16_bytes unat_of_nat)

lemma ReadUint8LengthPrefixed_lp8:
  "length v \<le> 255 \<Longrightarrow> ReadUint8LengthPrefixed (lp8 v @ rest) = Some (v, rest)"
  by (simp add: ReadUint8LengthPrefixed_def readLengthPrefixed_def lp8_def read_def
      unat_of_nat unsigned_ucast_eq take_bit_nat_eq_self)

section \<open>Properties of the ECHConfigList decoder\<close>

subsection \<open>The length prefix\<close>

lemma parseECHConfigList_short:
  "length data < 2 \<Longrightarrow> parseECHConfigList data = Inl errMalformedECHConfig"
  by (simp add: parseECHConfigList_def ReadUint16_short)

text \<open>
  The check of the prefix passes exactly when the prefix equals the number of bytes
  after it modulo 65536: the conversion to \<open>uint16\<close> drops the higher bits.
\<close>

lemma parseECHConfigList_prefix:
  "parseECHConfigList (u16be n @ rest) =
     (if length rest mod 65536 = unat n then parseECHConfigs rest []
      else Inl errMalformedECHConfig)"
  by (simp add: parseECHConfigList_def ReadUint16_u16be u16_eq_of_nat_iff)

lemma parseECHConfigList_truncated:
  "length rest < unat n \<Longrightarrow> parseECHConfigList (u16be n @ rest) = Inl errMalformedECHConfig"
proof -
  assume a: "length rest < unat n"
  have "unat n < 65536" using unsigned_less [of n] by simp
  with a have "length rest mod 65536 \<noteq> unat n" by simp
  then show ?thesis by (simp add: parseECHConfigList_prefix)
qed

lemma parseECHConfigList_trailing:
  "unat n < length rest \<Longrightarrow> length rest \<le> 65535 \<Longrightarrow>
   parseECHConfigList (u16be n @ rest) = Inl errMalformedECHConfig"
  by (simp add: parseECHConfigList_prefix)

lemma parseECHConfigList_listWire:
  "length es \<le> 65535 \<Longrightarrow> parseECHConfigList (listWire es) = parseECHConfigs es []"
  by (simp add: listWire_def lp16_def parseECHConfigList_prefix unat_of_nat)

lemma mod_65536_shift:
  assumes "1 \<le> (k :: nat)" and "k \<le> 3"
  shows "(x + k) mod 65536 \<noteq> x mod 65536"
proof
  assume e: "(x + k) mod 65536 = x mod 65536"
  define r where "r = x mod 65536"
  have r: "r < 65536" by (simp add: r_def)
  have "(x + k) mod 65536 = (r + k) mod 65536"
    unfolding r_def by (simp add: mod_add_left_eq)
  with e have e': "(r + k) mod 65536 = r" by (simp add: r_def)
  show False
  proof (cases "r + k < 65536")
    case True
    with e' assms show False by simp
  next
    case False
    then have "(r + k) mod 65536 = (r + k - 65536) mod 65536"
      by (simp add: le_mod_geq)
    also have "\<dots> = r + k - 65536" using r assms by simp
    finally show False using e' assms False by simp
  qed
qed

text \<open>One to three bytes after an accepted list are rejected.\<close>

lemma parseECHConfigList_few_more_bytes:
  assumes "parseECHConfigList d = Inr cs" and "1 \<le> length t" and "length t \<le> 3"
  shows "parseECHConfigList (d @ t) = Inl errMalformedECHConfig"
proof -
  from assms(1) have "\<not> length d < 2"
    using parseECHConfigList_short [of d] by auto
  then obtain a b rest where d: "d = a # b # rest"
    by (cases d, simp, rename_tac a as, case_tac as, auto)
  define n :: "16 word" where "n = push_bit 8 (ucast a) OR ucast b"
  have d': "d = u16be n @ rest" by (simp add: d n_def u16be_join)
  from assms(1) have ok: "length rest mod 65536 = unat n"
    unfolding d' parseECHConfigList_prefix by (simp split: if_splits)
  have "(length rest + length t) mod 65536 \<noteq> length rest mod 65536"
    using assms(2,3) by (rule mod_65536_shift)
  with ok have "length (rest @ t) mod 65536 \<noteq> unat n" by simp
  then have "parseECHConfigList (u16be n @ rest @ t) = Inl errMalformedECHConfig"
    by (simp only: parseECHConfigList_prefix if_False)
  then show ?thesis by (simp add: d')
qed

subsection \<open>Entries of another version\<close>

lemma parseECHConfigEntry_skip:
  assumes "v \<noteq> extensionEncryptedClientHello" and "length body \<le> 65535"
  shows "parseECHConfigEntry (entryWire v body @ rest) = Inr (None, rest)"
proof -
  let ?n = "word_of_nat (length body) :: 16 word"
  have n: "unat ?n = length body" using assms(2) by (simp add: unat_of_nat)
  then have u: "uint ?n = int (length body)" by (metis uint_nat)
  have r1: "ReadUint16 (entryWire v body @ rest) = Some (v, lp16 body @ rest)"
    by (simp add: entryWire_def ReadUint16_u16be)
  have r2: "ReadUint16 (lp16 body @ rest) = Some (?n, body @ rest)"
    by (simp add: lp16_def ReadUint16_u16be)
  have sk: "Skip (length body) (body @ rest) = (True, rest)"
    by (simp add: Skip_def read_def)
  have len: "length (entryWire v body) = 4 + length body"
    by (simp add: entryWire_def lp16_def)
  show ?thesis
    using assms(1) by (simp add: parseECHConfigEntry_def r1 r2 len u n sk Let_def)
qed

lemma parseECHConfigs_Nil: "parseECHConfigs [] acc = Inr acc"
  by (subst parseECHConfigs.simps) simp

lemma parseECHConfigs_skip:
  assumes "v \<noteq> extensionEncryptedClientHello" and "length body \<le> 65535"
  shows "parseECHConfigs (entryWire v body @ rest) acc = parseECHConfigs rest acc"
proof -
  have "entryWire v body @ rest \<noteq> []" by (simp add: entryWire_def u16be_def)
  then show ?thesis
    by (subst parseECHConfigs.simps) (simp add: parseECHConfigEntry_skip [OF assms])
qed

lemma parseECHConfigs_skip_all:
  assumes "\<forall>(v, b)\<in>set es. v \<noteq> extensionEncryptedClientHello \<and> length b \<le> 65535"
  shows "parseECHConfigs (entriesWire es @ rest) acc = parseECHConfigs rest acc"
  using assms
proof (induction es)
  case Nil
  show ?case by (simp add: entriesWire_def)
next
  case (Cons e es)
  obtain v b where e: "e = (v, b)" by (cases e)
  from Cons.prems e have vb: "v \<noteq> extensionEncryptedClientHello" "length b \<le> 65535"
    and es: "\<forall>(v, b)\<in>set es. v \<noteq> extensionEncryptedClientHello \<and> length b \<le> 65535"
    by auto
  have "entriesWire (e # es) @ rest = entryWire v b @ entriesWire es @ rest"
    by (simp add: entriesWire_def e)
  then show ?case
    using parseECHConfigs_skip [OF vb] Cons.IH [OF es] by simp
qed

text \<open>A pass that returns a config and leaves nothing ends the loop with that config.\<close>

lemma parseECHConfigs_one:
  assumes "parseECHConfigEntry e = Inr (Some c, [])"
  shows "parseECHConfigs e acc = Inr (acc @ [c])"
proof -
  from parseECHConfigEntry_length [OF assms] have "e \<noteq> []" by auto
  then show ?thesis
    by (subst parseECHConfigs.simps) (simp add: assms parseECHConfigs_Nil)
qed

subsection \<open>The cipher suite and extension loops\<close>

lemma echCipher_eta: "\<lparr>KDFID = KDFID c, AEADID = AEADID c\<rparr> = (c :: echCipher)"
  by (cases c) simp

lemma echExtension_eta: "\<lparr>Type = Type e, Data = Data e\<rparr> = (e :: echExtension)"
  by (cases e) simp

lemma parseCipherSuites_Nil: "parseCipherSuites [] acc = Inr acc"
  by (subst parseCipherSuites.simps) (simp add: Empty_def)

lemma parseCipherSuites_step:
  "parseCipherSuites (a # b # c # d # rest) acc =
     parseCipherSuites rest
       (acc @ [\<lparr>KDFID = push_bit 8 (ucast a) OR ucast b,
                 AEADID = push_bit 8 (ucast c) OR ucast d\<rparr>])"
  by (subst parseCipherSuites.simps) (simp add: Empty_def ReadUint16_Cons2)

lemma parseCipherSuites_short:
  "bs \<noteq> [] \<Longrightarrow> length bs < 4 \<Longrightarrow> parseCipherSuites bs acc = Inl errMalformedECHConfig"
  apply (subst parseCipherSuites.simps)
  apply (cases bs; simp add: Empty_def)
  apply (rename_tac a as, case_tac as; simp add: ReadUint16_short ReadUint16_Cons2)
  done

text \<open>A sub-string whose length is not a multiple of four fails the loop.\<close>

lemma parseCipherSuites_bad:
  "length bs mod 4 \<noteq> 0 \<Longrightarrow> parseCipherSuites bs acc = Inl errMalformedECHConfig"
proof (induction bs arbitrary: acc rule: length_induct)
  case (1 bs)
  show ?case
  proof (cases "length bs < 4")
    case True
    moreover from "1.prems" have "bs \<noteq> []" by auto
    ultimately show ?thesis by (rule parseCipherSuites_short [rotated])
  next
    case False
    then obtain a b c d rest where bs: "bs = a # b # c # d # rest"
      by (cases bs, simp, rename_tac a as, case_tac as, simp,
          rename_tac b bs', case_tac bs', simp, rename_tac c cs', case_tac cs', auto)
    with "1.prems" have "length rest mod 4 \<noteq> 0" by simp
    moreover have "length rest < length bs" by (simp add: bs)
    ultimately show ?thesis
      using "1.IH" by (simp add: bs parseCipherSuites_step)
  qed
qed

text \<open>Pairs laid out one after the other are read back in order.\<close>

lemma parseCipherSuites_wire:
  "parseCipherSuites (concat (map cipherWire cs)) acc = Inr (acc @ cs)"
proof (induction cs arbitrary: acc)
  case Nil
  show ?case by (simp add: parseCipherSuites_Nil)
next
  case (Cons c cs)
  have "parseCipherSuites (concat (map cipherWire (c # cs))) acc
      = parseCipherSuites (concat (map cipherWire cs)) (acc @ [c])"
    by (simp add: cipherWire_def u16be_def parseCipherSuites_step be16_join echCipher_eta)
  also have "\<dots> = Inr ((acc @ [c]) @ cs)"
    by (rule Cons.IH)
  finally show ?case by simp
qed

lemma parseExtensions_Nil: "parseExtensions [] acc = Inr acc"
  by (subst parseExtensions.simps) (simp add: Empty_def)

lemma parseExtensions_step:
  fixes e :: echExtension
  assumes "length (Data e) \<le> 65535"
  shows "parseExtensions (extensionWire e @ rest) acc = parseExtensions rest (acc @ [e])"
proof -
  have "extensionWire e @ rest \<noteq> []" by (simp add: extensionWire_def u16be_def)
  then show ?thesis
    by (subst parseExtensions.simps)
       (simp add: Empty_def extensionWire_def ReadUint16_u16be
          ReadUint16LengthPrefixed_lp16 [OF assms] echExtension_eta)
qed

lemma parseExtensions_wire:
  fixes es :: "echExtension list"
  assumes "\<forall>e\<in>set es. length (Data e) \<le> 65535"
  shows "parseExtensions (concat (map extensionWire es)) acc = Inr (acc @ es)"
  using assms
proof (induction es arbitrary: acc)
  case Nil
  show ?case by (simp add: parseExtensions_Nil)
next
  case (Cons e es)
  then show ?case by (simp add: parseExtensions_step)
qed

subsection \<open>An entry of the recognized version\<close>

lemma echConfig_eta:
  "\<lparr>raw = raw c, Version = Version c, Length = Length c, ConfigID = ConfigID c,
    KemID = KemID c, PublicKey = PublicKey c,
    SymmetricCipherSuite = SymmetricCipherSuite c, MaxNameLength = MaxNameLength c,
    PublicName = PublicName c, Extensions = Extensions c\<rparr>
   = (c :: echConfig)"
  by (cases c) simp

lemma length_echConfigWire: "length (echConfigWire c) = 4 + length (echConfigContents c)"
  by (simp add: echConfigWire_def entryWire_def lp16_def)

text \<open>A well-formed config laid out as an entry is read back, and nothing after it.\<close>

lemma parseECHConfigEntry_wire:
  assumes "wellFormedConfig c"
  shows "parseECHConfigEntry (echConfigWire c @ rest) = Inr (Some c, rest)"
proof -
  let ?pk = "PublicKey c" and ?cs = "concat (map cipherWire (SymmetricCipherSuite c))"
  let ?xs = "concat (map extensionWire (Extensions c))"
  let ?body = "echConfigContents c"
  from assms have rawc: "raw c = echConfigWire c"
    and ver: "Version c = extensionEncryptedClientHello"
    and len: "unat (Length c) = length ?body" and tot: "length (echConfigWire c) \<le> 65535"
    and pn: "length (PublicName c) \<le> 255"
    and ex: "\<forall>e\<in>set (Extensions c). length (Data e) \<le> 65535"
    by (simp_all add: wellFormedConfig_def)
  from tot have body: "length ?body + 4 \<le> 65535"
    by (simp add: length_echConfigWire)
  then have pk: "length ?pk \<le> 65535" and cs: "length ?cs \<le> 65535"
    and xs: "length ?xs \<le> 65535"
    by (simp_all add: echConfigContents_def length_lp16)
  have L: "word_of_nat (length ?body) = Length c"
    using len by (metis of_nat_unat ucast_id)
  have L4: "unat (Length c + 4) = length ?body + 4"
    using body len by (simp add: unat_word_ariths)
  have uL: "uint (Length c) = int (length ?body)"
    using len by (metis uint_nat)
  have r1: "ReadUint16 (echConfigWire c @ rest)
              = Some (extensionEncryptedClientHello, lp16 ?body @ rest)"
    by (simp add: echConfigWire_def entryWire_def ReadUint16_u16be)
  have r2: "ReadUint16 (lp16 ?body @ rest) = Some (Length c, ?body @ rest)"
    by (simp add: lp16_def ReadUint16_u16be L)
  have raw': "take (length ?body + 4) (echConfigWire c @ rest) = echConfigWire c"
    by (simp add: length_echConfigWire)
  have fields: "?body @ rest = ConfigID c # u16be (KemID c) @ lp16 ?pk @ lp16 ?cs
     @ MaxNameLength c # lp8 (PublicName c) @ lp16 ?xs @ rest"
    by (simp add: echConfigContents_def)
  show ?thesis
    unfolding parseECHConfigEntry_def r1 option.case prod.case r2
    unfolding fields
    apply (simp add: Let_def L4 uL length_echConfigWire raw' ReadUint8_Cons ReadUint16_u16be
        ReadUint16LengthPrefixed_lp16 [OF pk] ReadUint16LengthPrefixed_lp16 [OF cs]
        ReadUint16LengthPrefixed_lp16 [OF xs] ReadUint8LengthPrefixed_lp8 [OF pn]
        parseCipherSuites_wire parseExtensions_wire [OF ex])
    apply (simp add: rawc [symmetric] ver [symmetric] echConfig_eta)
    done
qed

text \<open>
  An entry of the recognized version whose cipher suite field has a length that is
  not a multiple of four fails the pass, whatever its declared length and whatever
  follows.
\<close>

lemma parseECHConfigEntry_bad_suites:
  assumes "length pk \<le> 65535" and "length suites \<le> 65535"
    and "length suites mod 4 \<noteq> 0"
  shows "parseECHConfigEntry (u16be extensionEncryptedClientHello @ u16be len
           @ cid # u16be kem @ lp16 pk @ lp16 suites @ rest) = Inl errMalformedECHConfig"
  by (simp add: parseECHConfigEntry_def ReadUint16_u16be ReadUint8_Cons Let_def
      ReadUint16LengthPrefixed_lp16 [OF assms(1)] ReadUint16LengthPrefixed_lp16 [OF assms(2)]
      parseCipherSuites_bad [OF assms(3)])

lemma parseECHConfigs_bad_suites:
  assumes "length pk \<le> 65535" and "length suites \<le> 65535"
    and "length suites mod 4 \<noteq> 0"
  shows "parseECHConfigs (u16be extensionEncryptedClientHello @ u16be len
           @ cid # u16be kem @ lp16 pk @ lp16 suites @ rest) acc = Inl errMalformedECHConfig"
  by (subst parseECHConfigs.simps)
     (simp add: parseECHConfigEntry_bad_suites [OF assms])

subsection \<open>A long run of empty entries\<close>

lemma four_zeros_entry: "replicate (4 * Suc n) (0 :: byte) = entryWire 0 [] @ replicate (4 * n) 0"
proof -
  have "replicate 4 (0 :: byte) = entryWire 0 []"
    by (simp add: entryWire_def lp16_def u16be_def numeral_eq_Suc)
  moreover have "replicate (4 + 4 * n) (0 :: byte) = replicate 4 0 @ replicate (4 * n) 0"
    by (rule replicate_add)
  ultimately show ?thesis by simp
qed

lemma parseECHConfigs_zeros: "parseECHConfigs (replicate (4 * n) 0) acc = Inr acc"
proof (induction n)
  case 0
  show ?case by (simp add: parseECHConfigs_Nil)
next
  case (Suc n)
  have "parseECHConfigs (entryWire 0 [] @ replicate (4 * n) 0) acc
          = parseECHConfigs (replicate (4 * n) 0) acc"
    by (rule parseECHConfigs_skip) (simp_all add: extensionEncryptedClientHello_def)
  with Suc show ?case by (simp only: four_zeros_entry)
qed

subsection \<open>The claims about the ECHConfigList decoder\<close>

text \<open>The low bytes of the version tags used in the examples.\<close>

lemma low_byte_fe0d: "(0xfe0d :: 8 word) = 0x0d"
  by simp

lemma low_byte_fe0c: "(0xfe0c :: 8 word) = 0x0c"
  by simp

text \<open>
  C1: the claim is that the fields of an entry of the recognized version are parsed
  only inside the \<open>entryLength\<close> bytes after its 4-byte header, and that a field
  reaching past them fails the decode instead of consuming the bytes of the entries
  after it. The decoder reads the fields from the rest of the whole list. Here the
  list holds an entry of the recognized version with \<open>entryLength\<close> 0, then two
  entries of version 0 (an empty one, and one with the body \<open>00 00 00\<close>): the decode
  succeeds, and the config is made of the eleven bytes of the two entries after it
  (its \<open>MaxNameLength\<close> 3 is the length byte of the last one), while its \<open>raw\<close>
  is the 4-byte header alone.
\<close>

theorem C1_fields_read_past_entry:
  "parseECHConfigList [0, 15,  0xfe, 0x0d, 0, 0,  0, 0, 0, 0,  0, 0, 0, 3, 0, 0, 0]
     = Inr [\<lparr>raw = [0xfe, 0x0d, 0, 0], Version = 0xfe0d, Length = 0, ConfigID = 0,
             KemID = 0, PublicKey = [], SymmetricCipherSuite = [], MaxNameLength = 3,
             PublicName = [], Extensions = []\<rparr>]"
proof -
  have "parseECHConfigEntry [0xfe, 0x0d, 0, 0,  0, 0, 0, 0,  0, 0, 0, 3, 0, 0, 0]
     = Inr (Some \<lparr>raw = [0xfe, 0x0d, 0, 0], Version = 0xfe0d, Length = 0, ConfigID = 0,
             KemID = 0, PublicKey = [], SymmetricCipherSuite = [], MaxNameLength = 3,
             PublicName = [], Extensions = []\<rparr>, [])"
    by (simp add: parseECHConfigEntry_def ReadUint16_Cons2 ReadUint8_Cons
        extensionEncryptedClientHello_def ReadUint16LengthPrefixed_def
        ReadUint8LengthPrefixed_def readLengthPrefixed_def read_def
        parseCipherSuites_Nil parseExtensions_Nil)
  from parseECHConfigs_one [OF this, of "[]"] show ?thesis
    by (simp add: parseECHConfigList_def ReadUint16_Cons2)
qed

text \<open>
  C3: the claim is that the decoder fails whenever the 2-byte prefix differs from the
  number of bytes after it. The decoder compares the prefix with that number cut to 16
  bits: on 65538 zero bytes (the prefix says 0, 65536 bytes follow, which read as 16384
  empty entries of version 0) it returns the empty list and no error. For inputs of
  fewer than 2 bytes, for truncated inputs and for up to 65535 bytes after the prefix
  the claim holds (\<open>parseECHConfigList_short\<close>, \<open>parseECHConfigList_truncated\<close>,
  \<open>parseECHConfigList_trailing\<close>).
\<close>

theorem C3_wrapped_length_accepted:
  "parseECHConfigList (replicate 65538 0) = Inr []"
proof -
  have "replicate 65538 (0 :: byte) = u16be 0 @ replicate (4 * 16384) 0"
    by (simp add: u16be_def flip: replicate_add replicate_Suc)
  then show ?thesis
    by (simp only: parseECHConfigList_prefix parseECHConfigs_zeros) simp
qed

text \<open>
  C4: a list of at most 65535 bytes that holds one entry of another version (any
  version but 0xfe0d, any body) followed by one well-formed entry of the recognized
  version decodes to exactly the one config of the recognized entry. The result is
  also what the list without the first entry decodes to: nothing of the skipped entry
  is in it.
\<close>

theorem C4_unrecognized_entry_skipped:
  assumes "v \<noteq> extensionEncryptedClientHello" and "length body \<le> 65535"
    and "wellFormedConfig c"
    and "length (entryWire v body @ echConfigWire c) \<le> 65535"
  shows "parseECHConfigList (listWire (entryWire v body @ echConfigWire c)) = Inr [c]
       \<and> parseECHConfigList (listWire (echConfigWire c)) = Inr [c]"
proof -
  have one: "parseECHConfigs (echConfigWire c) [] = Inr [c]"
    using parseECHConfigs_one [of "echConfigWire c" c "[]"]
      parseECHConfigEntry_wire [OF assms(3), of "[]"] by simp
  from assms(4) have "length (echConfigWire c) \<le> 65535" by simp
  then have "parseECHConfigList (listWire (echConfigWire c)) = Inr [c]"
    by (simp add: parseECHConfigList_listWire one)
  moreover have "parseECHConfigList (listWire (entryWire v body @ echConfigWire c)) = Inr [c]"
    using parseECHConfigs_skip [OF assms(1,2), of "echConfigWire c" "[]"]
    by (simp add: parseECHConfigList_listWire [OF assms(4)] one)
  ultimately show ?thesis by simp
qed

theorem C4_unrecognized_entry_skipped_witness:
  "parseECHConfigList
     [0, 29,  0, 1, 0, 3, 7, 7, 7,
      0xfe, 0x0d, 0, 18,  9,  0, 0x20,  0, 2, 5, 6,  0, 4, 0, 1, 0, 1,  64,  1, 97,  0, 0]
   = Inr [\<lparr>raw = [0xfe, 0x0d, 0, 18,  9,  0, 0x20,  0, 2, 5, 6,  0, 4, 0, 1, 0, 1,
                   64,  1, 97,  0, 0],
            Version = 0xfe0d, Length = 18, ConfigID = 9, KemID = 0x20, PublicKey = [5, 6],
            SymmetricCipherSuite = [\<lparr>KDFID = 1, AEADID = 1\<rparr>], MaxNameLength = 64,
            PublicName = [97], Extensions = []\<rparr>]"
  using C4_unrecognized_entry_skipped
    [of 1 "[7, 7, 7]"
        "\<lparr>raw = [0xfe, 0x0d, 0, 18,  9,  0, 0x20,  0, 2, 5, 6,  0, 4, 0, 1, 0, 1,
                   64,  1, 97,  0, 0],
            Version = 0xfe0d, Length = 18, ConfigID = 9, KemID = 0x20, PublicKey = [5, 6],
            SymmetricCipherSuite = [\<lparr>KDFID = 1, AEADID = 1\<rparr>], MaxNameLength = 64,
            PublicName = [97], Extensions = []\<rparr>"]
  by (simp add: wellFormedConfig_def echConfigWire_def echConfigContents_def entryWire_def
      listWire_def lp16_def lp8_def u16be_def cipherWire_def
      extensionEncryptedClientHello_def low_byte_fe0d)

text \<open>
  C7: the cipher suite loop reads pairs laid out one after the other back in order,
  until the sub-string is used up; and a list in which, after any number of entries
  of other versions, an entry of the recognized version has a cipher suite field
  whose length is not a multiple of four fails to decode, whatever the length prefixes
  of the list and of the entry say and whatever follows the field.
\<close>

theorem C7_cipher_suite_pairs:
  assumes "\<forall>(v, b)\<in>set front. v \<noteq> extensionEncryptedClientHello \<and> length b \<le> 65535"
    and "length pk \<le> 65535" and "length suites \<le> 65535"
    and "length suites mod 4 \<noteq> 0"
  shows "parseCipherSuites (concat (map cipherWire cs)) [] = Inr cs
       \<and> parseCipherSuites suites [] = Inl errMalformedECHConfig
       \<and> parseECHConfigList (u16be n @ entriesWire front
             @ u16be extensionEncryptedClientHello @ u16be len
             @ cid # u16be kem @ lp16 pk @ lp16 suites @ rest) = Inl errMalformedECHConfig"
  using parseCipherSuites_wire [of cs "[]"]
  by (simp add: parseECHConfigList_prefix parseECHConfigs_skip_all [OF assms(1)]
      parseECHConfigs_bad_suites [OF assms(2-4)] parseCipherSuites_bad [OF assms(4)])

theorem C7_cipher_suite_pairs_witness:
  "parseCipherSuites [0, 1, 0, 2,  0, 3, 0, 4] []
     = Inr [\<lparr>KDFID = 1, AEADID = 2\<rparr>, \<lparr>KDFID = 3, AEADID = 4\<rparr>]
   \<and> parseCipherSuites [0, 1, 0, 2,  0, 3, 0] [] = Inl errMalformedECHConfig
   \<and> parseECHConfigList
       [0, 25,  0, 1, 0, 1, 7,
        0xfe, 0x0d, 0, 16,  9,  0, 0x20,  0, 0,  0, 7, 0, 1, 0, 2,  0, 3, 0,  64,  0,  0, 0]
     = Inl errMalformedECHConfig"
  using C7_cipher_suite_pairs
    [of "[(1, [7])]" "[]" "[0, 1, 0, 2,  0, 3, 0]"
        "[\<lparr>KDFID = 1, AEADID = 2\<rparr>, \<lparr>KDFID = 3, AEADID = 4\<rparr>]"
        25 16 9 "0x20" "[64, 0, 0, 0]"]
  by (simp add: entriesWire_def entryWire_def lp16_def u16be_def cipherWire_def
      extensionEncryptedClientHello_def low_byte_fe0d)

text \<open>
  C9: a list of at most 65535 bytes made only of entries of other versions (any
  number of them, none included: the list is then the two bytes \<open>00 00\<close>) decodes to
  the empty list, with no error.
\<close>

theorem C9_no_recognized_entry:
  assumes "\<forall>(v, b)\<in>set es. v \<noteq> extensionEncryptedClientHello \<and> length b \<le> 65535"
    and "length (entriesWire es) \<le> 65535"
  shows "parseECHConfigList (listWire (entriesWire es)) = Inr []
       \<and> parseECHConfigList [0, 0] = Inr []"
proof -
  have "parseECHConfigList (listWire []) = Inr []"
    by (simp add: parseECHConfigList_listWire parseECHConfigs_Nil)
  then have "parseECHConfigList [0, 0] = Inr []"
    by (simp add: listWire_def lp16_def u16be_def)
  then show ?thesis
    using parseECHConfigs_skip_all [OF assms(1), of "[]" "[]"]
    by (simp add: parseECHConfigList_listWire [OF assms(2)] parseECHConfigs_Nil)
qed

theorem C9_no_recognized_entry_witness:
  "parseECHConfigList [0, 11,  0, 0, 0, 0,  0xfe, 0x0c, 0, 3, 7, 7, 7] = Inr []"
  using C9_no_recognized_entry [of "[(0, []), (0xfe0c, [7, 7, 7])]"]
  by (simp add: entriesWire_def entryWire_def listWire_def lp16_def u16be_def
      extensionEncryptedClientHello_def low_byte_fe0c)

subsection \<open>The claim about bytes after the last service parameter\<close>

text \<open>
  C10: every input the HTTPS record decoder accepts is the layout of the record it
  returns followed by at most three more bytes, which are in no parameter; and a
  record (with no zero byte in its target name and values that fit their 16-bit
  length) followed by one to three more bytes decodes to the same record as without
  them, with no error. The ECHConfigList decoder, in contrast, rejects every accepted
  input once one to three bytes are added to it.
\<close>

theorem C10_trailing_bytes_discarded:
  fixes r :: HttpsRecord
  assumes "0 \<notin> set (TargetName r)"
    and "\<forall>p\<in>set (Params r). length (Value p) \<le> 65535"
    and "1 \<le> length t" and "length t \<le> 3"
  shows "parseHttpsRecord (httpsRecordWire r @ t) = Inr r
       \<and> parseHttpsRecord (httpsRecordWire r) = Inr r
       \<and> (\<forall>data r'. parseHttpsRecord data = Inr r' \<longrightarrow>
             (\<exists>t'. length t' \<le> 3 \<and> data = httpsRecordWire r' @ t'))
       \<and> (\<forall>d cs. parseECHConfigList d = Inr cs \<longrightarrow>
             parseECHConfigList (d @ t) = Inl errMalformedECHConfig)"
proof (intro conjI allI impI)
  show "parseHttpsRecord (httpsRecordWire r @ t) = Inr r"
    by (rule parseHttpsRecord_wire [OF assms(1,2,4)])
  show "parseHttpsRecord (httpsRecordWire r) = Inr r"
    using parseHttpsRecord_wire [OF assms(1,2), of "[]"] by simp
next
  fix data r'
  assume "parseHttpsRecord data = Inr r'"
  from parseHttpsRecord_complete [OF this]
  show "\<exists>t'. length t' \<le> 3 \<and> data = httpsRecordWire r' @ t'" by blast
next
  fix d cs
  assume "parseECHConfigList d = Inr cs"
  then show "parseECHConfigList (d @ t) = Inl errMalformedECHConfig"
    using assms(3,4) by (rule parseECHConfigList_few_more_bytes)
qed

theorem C10_trailing_bytes_discarded_witness:
  "parseHttpsRecord ([0, 1,  104, 50,  0,  0, 5, 0, 2, 1, 2] @ [9, 9])
     = Inr \<lparr>Priority = 1, TargetName = [104, 50], Params = [\<lparr>Key = 5, Value = [1, 2]\<rparr>]\<rparr>
   \<and> parseHttpsRecord [0, 1,  104, 50,  0,  0, 5, 0, 2, 1, 2]
     = Inr \<lparr>Priority = 1, TargetName = [104, 50], Params = [\<lparr>Key = 5, Value = [1, 2]\<rparr>]\<rparr>
   \<and> parseECHConfigList [0, 0] = Inr []
   \<and> parseECHConfigList ([0, 0] @ [9, 9]) = Inl errMalformedECHConfig"
proof -
  let ?r = "\<lparr>Priority = 1, TargetName = [104, 50], Params = [\<lparr>Key = 5, Value = [1, 2]\<rparr>]\<rparr>"
  have wire: "httpsRecordWire ?r = [0, 1,  104, 50,  0,  0, 5, 0, 2, 1, 2]"
    by (simp add: httpsRecordWire_def svcParamWire_def lp16_def u16be_def)
  have empty: "parseECHConfigList [0, 0] = Inr []"
    by (simp add: parseECHConfigList_def ReadUint16_Cons2 parseECHConfigs_Nil)
  have "parseHttpsRecord (httpsRecordWire ?r @ [9, 9]) = Inr ?r
       \<and> parseHttpsRecord (httpsRecordWire ?r) = Inr ?r
       \<and> (\<forall>d cs. parseECHConfigList d = Inr cs \<longrightarrow>
             parseECHConfigList (d @ [9, 9]) = Inl errMalformedECHConfig)"
    using C10_trailing_bytes_discarded [of ?r "[9, 9]"] by simp
  with empty show ?thesis unfolding wire by blast
qed

section \<open>Properties of the outer extension encoder\<close>

lemma writeLength_2:
  "writeLength off 2 l res =
     (res[off + 1 := word_of_nat l, off := word_of_nat (drop_bit 8 l)], drop_bit 16 l)"
  by (simp add: numeral_2_eq_2 drop_bit_drop_bit)

lemma placeholder_update:
  "(pre @ a # b # v)[Suc (length pre) := y, length pre := x] = pre @ x # y # v"
  by (simp add: list_update_append)

lemma drop_bit_16_length: "0 < drop_bit 16 (n :: nat) \<longleftrightarrow> \<not> n \<le> 65535"
  by (auto simp: drop_bit_eq_div div_eq_0_iff)

text \<open>
  A length-prefixed field on a builder without an error: the field behind its length
  when the length fits 16 bits, the error otherwise.
\<close>

lemma AddUint16LengthPrefixed_AddBytes:
  assumes "err b = None"
  shows "AddUint16LengthPrefixed (AddBytes v) b =
           (if length v \<le> 65535 then b\<lparr>result := result b @ lp16 v\<rparr>
            else b\<lparr>result := result b @ [0, 0],
                   err := Some (pending_child_length_exceeds_prefix (length v) 2)\<rparr>)"
proof -
  let ?b' = "b\<lparr>result := result b @ [0, 0]\<rparr>"
  let ?child = "\<lparr>err = None, result = result b @ 0 # 0 # v,
                 offset = length (result b), pendingLenLen = 2\<rparr>"
  have b': "add (replicate 2 0) b = ?b'"
    using assms by (simp add: add_def numeral_2_eq_2)
  have child: "AddBytes v \<lparr>err = None, result = result b @ [0, 0],
                 offset = length (result b), pendingLenLen = 2\<rparr> = ?child"
    by (simp add: AddBytes_def add_def)
  have wl: "writeLength (length (result b)) 2 (length v) (result b @ 0 # 0 # v)
              = (result b @ lp16 v, drop_bit 16 (length v))"
    by (simp add: writeLength_2 placeholder_update lp16_def u16be_of_nat)
  have flush: "flushChild ?b' ?child =
      (if length v \<le> 65535 then ?b'\<lparr>result := result b @ lp16 v\<rparr>
       else ?b'\<lparr>err := Some (pending_child_length_exceeds_prefix (length v) 2)\<rparr>)"
    by (simp add: flushChild_def wl drop_bit_16_length)
  show ?thesis
    using assms
    by (simp add: AddUint16LengthPrefixed_def addLengthPrefixed_def Let_def b' child flush)
qed

lemma AddUint16LengthPrefixed_failed:
  "err b = Some e \<Longrightarrow> AddUint16LengthPrefixed f b = b"
  by (simp add: AddUint16LengthPrefixed_def addLengthPrefixed_def)

lemma fixed_part:
  "AddUint8 id' (AddUint16 aeadID (AddUint16 kdfID (AddUint8 0 newBuilder)))
     = \<lparr>err = None, result = 0 # u16be kdfID @ u16be aeadID @ [id'],
        offset = 0, pendingLenLen = 0\<rparr>"
  by (simp add: newBuilder_def AddUint8_def AddUint16_def add_def u16be_def)

lemma generateOuterECHExt_unfold:
  "generateOuterECHExt id' kdfID aeadID encodedKey payload =
     Bytes (AddUint16LengthPrefixed (AddBytes payload)
             (AddUint16LengthPrefixed (AddBytes encodedKey)
               \<lparr>err = None, result = 0 # u16be kdfID @ u16be aeadID @ [id'],
                 offset = 0, pendingLenLen = 0\<rparr>))"
  by (simp only: generateOuterECHExt_def Let_def fixed_part)

text \<open>
  C5: with \<open>encodedKey\<close> and \<open>payload\<close> of at most 65535 bytes each, the encoder
  succeeds and returns the byte 0, \<open>kdfID\<close> and \<open>aeadID\<close> high byte first, the
  config id, \<open>encodedKey\<close> behind its 2-byte length and \<open>payload\<close> behind its 2-byte
  length; with 3 and 5 bytes the output has 18 bytes and starts with 0.
\<close>

theorem C5_outer_extension_layout:
  assumes "length encodedKey \<le> 65535" and "length payload \<le> 65535"
  shows "generateOuterECHExt id' kdfID aeadID encodedKey payload
           = Inr ([0] @ u16be kdfID @ u16be aeadID @ [id']
                  @ u16be (word_of_nat (length encodedKey)) @ encodedKey
                  @ u16be (word_of_nat (length payload)) @ payload)
       \<and> (length encodedKey = 3 \<and> length payload = 5 \<longrightarrow>
            (\<exists>out. generateOuterECHExt id' kdfID aeadID encodedKey payload = Inr out
               \<and> length out = 18 \<and> out ! 0 = 0))"
  using assms
  by (simp add: generateOuterECHExt_unfold AddUint16LengthPrefixed_AddBytes Bytes_def lp16_def)

theorem C5_outer_extension_layout_witness:
  "generateOuterECHExt 7 1 2 [10, 11, 12] [20, 21, 22, 23, 24]
     = Inr [0,  0, 1,  0, 2,  7,  0, 3, 10, 11, 12,  0, 5, 20, 21, 22, 23, 24]"
  using C5_outer_extension_layout [of "[10, 11, 12]" "[20, 21, 22, 23, 24]" 7 1 2]
  by (simp add: u16be_def)

text \<open>
  C8: with \<open>encodedKey\<close> or \<open>payload\<close> longer than 65535 bytes the encoder returns
  an error, that of the first field that is too long, and no byte sequence.
\<close>

theorem C8_oversized_field_rejected:
  assumes "length encodedKey > 65535 \<or> length payload > 65535"
  shows "generateOuterECHExt id' kdfID aeadID encodedKey payload
           = Inl (pending_child_length_exceeds_prefix
                   (if length encodedKey > 65535 then length encodedKey else length payload) 2)"
proof (cases "length encodedKey > 65535")
  case True
  then show ?thesis
    by (simp add: generateOuterECHExt_unfold AddUint16LengthPrefixed_AddBytes Bytes_def
        AddUint16LengthPrefixed_failed)
next
  case False
  with assms have "length payload > 65535" by simp
  with False show ?thesis
    by (simp add: generateOuterECHExt_unfold AddUint16LengthPrefixed_AddBytes Bytes_def)
qed

theorem C8_oversized_field_rejected_witness:
  "generateOuterECHExt 7 1 2 (replicate 65536 0) [20, 21]
     = Inl (pending_child_length_exceeds_prefix 65536 2)
   \<and> generateOuterECHExt 7 1 2 [10] (replicate 70000 0)
     = Inl (pending_child_length_exceeds_prefix 70000 2)"
  using C8_oversized_field_rejected [of "replicate 65536 0" "[20, 21]" 7 1 2]
    C8_oversized_field_rejected [of "[10]" "replicate 70000 0" 7 1 2]
  by simp

section \<open>Properties of the domain name check\<close>

text \<open>
  The pieces \<open>strings_Split\<close> returns hold no separator, and put together with the
  separator between them they give the string back.
\<close>

lemma strings_Split_not_Nil: "strings_Split s sep \<noteq> []"
  by (induction s) auto

lemma strings_Split_no_sep: "l \<in> set (strings_Split s sep) \<Longrightarrow> sep \<notin> set l"
proof (induction s arbitrary: l)
  case Nil
  then show ?case by simp
next
  case (Cons c s)
  show ?case
  proof (cases "c = sep")
    case True
    with Cons show ?thesis by auto
  next
    case False
    obtain p ps where ps: "strings_Split s sep = p # ps"
      using strings_Split_not_Nil [of s sep] by (cases "strings_Split s sep") auto
    with Cons False show ?thesis by auto
  qed
qed

text \<open>The same equation with the recursive call named once, for evaluation.\<close>

lemma strings_Split_Cons:
  "strings_Split (c # cs) sep =
     (if c = sep then [] # strings_Split cs sep
      else (case strings_Split cs sep of l # ls \<Rightarrow> (c # l) # ls | [] \<Rightarrow> [[c]]))"
  using strings_Split_not_Nil [of cs sep] by (cases "strings_Split cs sep") auto

lemma strings_Split_join:
  "concat (map (\<lambda>l. l @ [sep]) (strings_Split s sep)) = s @ [sep]"
proof (induction s)
  case Nil
  show ?case by simp
next
  case (Cons c s)
  obtain p ps where ps: "strings_Split s sep = p # ps"
    using strings_Split_not_Nil [of s sep] by (cases "strings_Split s sep") auto
  with Cons show ?case by auto
qed

text \<open>The second test of the rune loop, as a predicate of its own.\<close>

lemma rune_test:
  "\<not> ((rune r < rune CHR ''0'' \<or> rune r > rune CHR ''9'')
            \<and> (rune r < rune CHR ''a'' \<or> rune r > rune CHR ''z'')
            \<and> (rune r < rune CHR ''A'' \<or> rune r > rune CHR ''Z'')
            \<and> r \<noteq> CHR ''-'')
   \<longleftrightarrow> asciiAlphanumeric r \<or> r = CHR ''-''"
  by (cases r) (simp add: asciiAlphanumeric_def rune_def; fastforce)

lemma labelRunes_iff:
  "labelRunes rs labelLen i \<longleftrightarrow>
     (\<forall>j<length rs. (asciiAlphanumeric (rs ! j) \<or> rs ! j = CHR ''-'')
        \<and> \<not> (rs ! j = CHR ''-'' \<and> (i + j = 0 \<or> i + j = labelLen - 1)))"
proof (induction rs arbitrary: i)
  case Nil
  show ?case by simp
next
  case (Cons r rs)
  have "labelRunes (r # rs) labelLen i \<longleftrightarrow>
          \<not> (r = CHR ''-'' \<and> (i = 0 \<or> i = labelLen - 1))
          \<and> (asciiAlphanumeric r \<or> r = CHR ''-'')
          \<and> labelRunes rs labelLen (i + 1)"
    using rune_test [of r] by auto
  also have "\<dots> \<longleftrightarrow> (\<forall>j<length (r # rs).
        (asciiAlphanumeric ((r # rs) ! j) \<or> (r # rs) ! j = CHR ''-'')
        \<and> \<not> ((r # rs) ! j = CHR ''-'' \<and> (i + j = 0 \<or> i + j = labelLen - 1)))"
    unfolding Cons.IH by (auto simp: less_Suc_eq_0_disj)
  finally show ?case .
qed

lemma label_iff:
  assumes "l \<noteq> []"
  shows "labelRunes l (length l) 0 \<longleftrightarrow>
           (\<forall>c\<in>set l. asciiAlphanumeric c \<or> c = CHR ''-'')
           \<and> hd l \<noteq> CHR ''-'' \<and> last l \<noteq> CHR ''-''"
proof -
  from assms have h: "hd l = l ! 0" and la: "last l = l ! (length l - 1)"
    and p: "0 < length l" and q: "length l - 1 < length l"
    by (simp_all add: hd_conv_nth last_conv_nth)
  have ok: "(\<forall>c\<in>set l. asciiAlphanumeric c \<or> c = CHR ''-'')
              \<longleftrightarrow> (\<forall>j<length l. asciiAlphanumeric (l ! j) \<or> l ! j = CHR ''-'')"
    by (simp add: all_set_conv_all_nth)
  have "labelRunes l (length l) 0 \<longleftrightarrow>
          (\<forall>j<length l. asciiAlphanumeric (l ! j) \<or> l ! j = CHR ''-'')
          \<and> (\<forall>j<length l. l ! j = CHR ''-'' \<longrightarrow> j \<noteq> 0 \<and> j \<noteq> length l - 1)"
    unfolding labelRunes_iff by auto
  also have "(\<forall>j<length l. l ! j = CHR ''-'' \<longrightarrow> j \<noteq> 0 \<and> j \<noteq> length l - 1)
           \<longleftrightarrow> l ! 0 \<noteq> CHR ''-'' \<and> l ! (length l - 1) \<noteq> CHR ''-''"
    using p q by metis
  finally show ?thesis unfolding h la ok .
qed

lemma labelsLoop_iff:
  "labelsLoop ls \<longleftrightarrow>
     (\<forall>l\<in>set ls. l \<noteq> [] \<and> (\<forall>c\<in>set l. asciiAlphanumeric c \<or> c = CHR ''-'')
           \<and> hd l \<noteq> CHR ''-'' \<and> last l \<noteq> CHR ''-'')"
proof (induction ls)
  case Nil
  show ?case by simp
next
  case (Cons l ls)
  show ?case
  proof (cases "l = []")
    case True
    then show ?thesis by simp
  next
    case False
    then show ?thesis using label_iff [OF False] Cons.IH by (simp add: Let_def)
  qed
qed

text \<open>
  C6: the check returns true exactly for the names of at most 253 bytes that split at
  the dots into at least two labels, each label non-empty, made of ASCII letters,
  digits and hyphens only, and neither starting nor ending with a hyphen. It is false
  for \<open>-bad.example\<close> and \<open>nodot\<close> and true for \<open>good-name.example\<close>.
\<close>

theorem C6_validDNSName_iff:
  "(validDNSName name \<longleftrightarrow>
      length name \<le> 253 \<and> 2 \<le> length (strings_Split name CHR ''.'')
      \<and> (\<forall>l\<in>set (strings_Split name CHR ''.'').
            l \<noteq> [] \<and> (\<forall>c\<in>set l. asciiAlphanumeric c \<or> c = CHR ''-'')
            \<and> hd l \<noteq> CHR ''-'' \<and> last l \<noteq> CHR ''-''))
   \<and> \<not> validDNSName ''-bad.example''
   \<and> validDNSName ''good-name.example''
   \<and> \<not> validDNSName ''nodot''"
proof (intro conjI)
  show "validDNSName name \<longleftrightarrow>
      length name \<le> 253 \<and> 2 \<le> length (strings_Split name CHR ''.'')
      \<and> (\<forall>l\<in>set (strings_Split name CHR ''.'').
            l \<noteq> [] \<and> (\<forall>c\<in>set l. asciiAlphanumeric c \<or> c = CHR ''-'')
            \<and> hd l \<noteq> CHR ''-'' \<and> last l \<noteq> CHR ''-'')"
    unfolding validDNSName_def Let_def labelsLoop_iff [symmetric] by auto
  show "\<not> validDNSName ''-bad.example''"
    by (simp add: validDNSName_def strings_Split_Cons del: strings_Split.simps(2))
  show "validDNSName ''good-name.example''"
    by (simp add: validDNSName_def rune_def strings_Split_Cons del: strings_Split.simps(2))
  show "\<not> validDNSName ''nodot''"
    by (simp add: validDNSName_def strings_Split_Cons del: strings_Split.simps(2))
qed

theorem C6_validDNSName_iff_witness:
  "validDNSName ''a-1.example'' \<and> \<not> validDNSName ''a-.example''
   \<and> \<not> validDNSName ''a..example'' \<and> \<not> validDNSName ''a_b.example''"
  using C6_validDNSName_iff [of "''a-1.example''"] C6_validDNSName_iff [of "''a-.example''"]
    C6_validDNSName_iff [of "''a..example''"] C6_validDNSName_iff [of "''a_b.example''"]
  by (simp add: asciiAlphanumeric_def strings_Split_Cons del: strings_Split.simps(2))

end
